theory Spec2Isabelle
  imports Complex_Main "HOL-Library.Multiset"
begin

section \<open>The queue simulator of tema7-queue-simulator/queue_simulator.py\<close>

text \<open>
  Python floats are modelled as \<^typ>\<open>real\<close> (exact arithmetic, no NaN, no rounding), Python
  ints as \<^typ>\<open>int\<close>. An exception is a value \<open>Inl e\<close> of the result type.
\<close>

datatype error = ValueError | IndexError

subsection \<open>Random variate source\<close>

text \<open>
  \<open>random.expovariate\<close> reads a global generator. The model makes the generator explicit:
  a run is given the sequence \<open>rs\<close> of the variates that the successive calls return, and the
  number of variates drawn so far is part of the state. \<open>exp_time\<close> itself keeps its check
  of the rate.
\<close>

type_synonym variates = "nat \<Rightarrow> real"

definition exp_time :: "variates \<Rightarrow> real \<Rightarrow> nat \<Rightarrow> error + (real \<times> nat)" where
  "exp_time rs rate k = (if rate \<le> 0 then Inl ValueError else Inr (rs k, Suc k))"

subsection \<open>Percentiles\<close>

text \<open>Python list indexing: a negative index counts from the end, out of range raises.\<close>

definition getitem :: "'a list \<Rightarrow> int \<Rightarrow> error + 'a" where
  "getitem xs i =
     (if 0 \<le> i \<and> i < int (length xs) then Inr (xs ! nat i)
      else if i < 0 \<and> - int (length xs) \<le> i then Inr (xs ! nat (int (length xs) + i))
      else Inl IndexError)"

definition pct :: "real list \<Rightarrow> real \<Rightarrow> error + real" where
  "pct values p =
     (if values = [] then Inr 0
      else
        let s = sort values;
            k = (p / 100) * real_of_int (int (length s) - 1);
            lo = \<lfloor>k\<rfloor>;
            hi = \<lceil>k\<rceil>
        in if lo = hi then getitem s lo
           else (case getitem s lo of Inl e \<Rightarrow> Inl e | Inr a \<Rightarrow>
                 (case getitem s hi of Inl e \<Rightarrow> Inl e | Inr b \<Rightarrow>
                   Inr (a + (b - a) * (k - real_of_int lo)))))"

subsection \<open>Data model\<close>

record Client =
  id' :: int
  arrival :: real
  service_start :: real
  service_end :: real

definition wait :: "Client \<Rightarrow> real" where
  "wait c = service_start c - arrival c"

definition system_time :: "Client \<Rightarrow> real" where
  "system_time c = service_end c - arrival c"

text \<open>The fields of \<open>SimResult\<close>; the prefix keeps them apart from the loop variables.\<close>

record SimResult =
  res_counters :: int
  res_clients :: int
  res_arrival_rate :: real
  res_service_rate :: real
  res_total_time :: real
  res_avg_wait :: real
  res_max_queue :: int
  res_served :: int
  res_utilization :: real
  res_waits :: "real list"
  res_queue_max_times :: "(real \<times> int) list"

subsection \<open>The event horizon\<close>

text \<open>
  \<open>busy_heap\<close> is a Python list of pairs (finish time, server index), used through
  \<open>heapq.heappush\<close>, \<open>heapq.heappop\<close> and \<open>busy_heap[0]\<close> only. The functions below are
  those of the standard library's \<open>heapq\<close> (\<open>heappush\<close>, \<open>heappop\<close>, \<open>_siftdown\<close>,
  \<open>_siftup\<close>), on a list: \<open>siftdown_loop\<close> and \<open>siftup_loop\<close> are the \<open>while\<close> loops of
  \<open>_siftdown\<close> and \<open>_siftup\<close>, \<open>smaller_child\<close> is the choice of \<open>childpos\<close> in \<open>_siftup\<close>.
  Pairs are compared as Python compares tuples, \<open>tuple_lt\<close>. The library indexes within
  the list throughout, so the index reads are written with \<open>!\<close>.
\<close>

type_synonym heap = "(real \<times> int) list"

definition tuple_lt :: "real \<times> int \<Rightarrow> real \<times> int \<Rightarrow> bool" where
  "tuple_lt a b = (fst a < fst b \<or> (fst a = fst b \<and> snd a < snd b))"

function siftdown_loop :: "heap \<Rightarrow> real \<times> int \<Rightarrow> nat \<Rightarrow> nat \<Rightarrow> heap" where
  "siftdown_loop heap newitem startpos pos =
     (if pos > startpos
      then (if tuple_lt newitem (heap ! ((pos - 1) div 2))
            then siftdown_loop (heap[pos := heap ! ((pos - 1) div 2)]) newitem startpos
                   ((pos - 1) div 2)
            else heap[pos := newitem])
      else heap[pos := newitem])"
  by pat_completeness auto
termination
  by (relation "measure (\<lambda>(heap, newitem, startpos, pos). pos)") auto

declare siftdown_loop.simps [simp del]

definition siftdown :: "heap \<Rightarrow> nat \<Rightarrow> nat \<Rightarrow> heap" where
  "siftdown heap startpos pos = siftdown_loop heap (heap ! pos) startpos pos"

definition smaller_child :: "heap \<Rightarrow> nat \<Rightarrow> nat" where
  "smaller_child heap childpos =
     (if childpos + 1 < length heap \<and> \<not> tuple_lt (heap ! childpos) (heap ! (childpos + 1))
      then childpos + 1 else childpos)"

function siftup_loop :: "heap \<Rightarrow> nat \<Rightarrow> heap \<times> nat" where
  "siftup_loop heap pos =
     (if 2 * pos + 1 < length heap
      then siftup_loop (heap[pos := heap ! smaller_child heap (2 * pos + 1)])
             (smaller_child heap (2 * pos + 1))
      else (heap, pos))"
  by pat_completeness auto
termination
  by (relation "measure (\<lambda>(heap, pos). length heap - pos)")
     (auto simp: smaller_child_def)

declare siftup_loop.simps [simp del]

definition siftup :: "heap \<Rightarrow> nat \<Rightarrow> heap" where
  "siftup heap pos =
     (let newitem = heap ! pos
      in case siftup_loop heap pos of
           (heap1, pos1) \<Rightarrow> siftdown (heap1[pos1 := newitem]) pos pos1)"

definition heappush :: "heap \<Rightarrow> real \<times> int \<Rightarrow> heap" where
  "heappush heap item = siftdown (heap @ [item]) 0 (length (heap @ [item]) - 1)"

definition heappop :: "heap \<Rightarrow> error + ((real \<times> int) \<times> heap)" where
  "heappop heap =
     (if heap = [] then Inl IndexError
      else
        let lastelt = last heap;
            heap1 = butlast heap
        in if heap1 \<noteq> []
           then Inr (heap1 ! 0, siftup (heap1[0 := lastelt]) 0)
           else Inr (lastelt, []))"

text \<open>The time of the next completion: \<open>busy_heap[0][0] if busy_heap else float("inf")\<close>.\<close>

datatype xtime = Fin real | PosInf

definition next_completion :: "heap \<Rightarrow> xtime" where
  "next_completion h = (if h \<noteq> [] then Fin (fst (h ! 0)) else PosInf)"

fun le_xtime :: "real \<Rightarrow> xtime \<Rightarrow> bool" where
  "le_xtime a PosInf = True"
| "le_xtime a (Fin b) = (a \<le> b)"

subsection \<open>The state of the event loop\<close>

text \<open>
  The local variables of \<open>simulate_queue\<close>. Two fields are not variables of the source:
  \<open>drawn\<close> counts the variates consumed, and \<open>assigned\<close> lists the \<open>Client\<close> objects in the
  order in which they were given a server, as they are after the assignment (the source
  drops its reference to them). No other field is computed from \<open>assigned\<close>.
\<close>

record state =
  t :: real
  next_arrival :: real
  queue :: "Client list"
  busy_heap :: heap
  free_servers :: "int list"
  served :: int
  client_id :: int
  waits :: "real list"
  max_queue :: int
  queue_max_times :: "(real \<times> int) list"
  busy_time_sum :: real
  drawn :: nat
  assigned :: "Client list"

definition init_state :: "int \<Rightarrow> real \<Rightarrow> nat \<Rightarrow> state" where
  "init_state counters v k =
     \<lparr> t = 0, next_arrival = v, queue = [], busy_heap = [],
       free_servers = [0 .. counters - 1], served = 0, client_id = 0, waits = [],
       max_queue = 0, queue_max_times = [], busy_time_sum = 0, drawn = k, assigned = [] \<rparr>"

subsection \<open>One event\<close>

definition arrival_event :: "variates \<Rightarrow> real \<Rightarrow> state \<Rightarrow> error + state" where
  "arrival_event rs arrival_rate s =
     (let tn = next_arrival s;
          cid = client_id s + 1;
          c = \<lparr> id' = cid, arrival = tn, service_start = 0, service_end = 0 \<rparr>;
          q = queue s @ [c];
          s1 = s\<lparr> t := tn, client_id := cid, queue := q \<rparr>;
          s2 = (if int (length q) > max_queue s1
                then s1\<lparr> max_queue := int (length q),
                         queue_max_times := queue_max_times s1 @ [(tn, int (length q))] \<rparr>
                else s1)
      in case exp_time rs arrival_rate (drawn s2) of
           Inl e \<Rightarrow> Inl e
         | Inr (v, k) \<Rightarrow> Inr (s2\<lparr> next_arrival := tn + v, drawn := k \<rparr>))"

definition completion_event :: "state \<Rightarrow> error + state" where
  "completion_event s =
     (case heappop (busy_heap s) of
        Inl e \<Rightarrow> Inl e
      | Inr ((tf, server_idx), h) \<Rightarrow>
          Inr (s\<lparr> t := tf, busy_heap := h, served := served s + 1,
                  free_servers := free_servers s @ [server_idx] \<rparr>))"

definition event :: "int \<Rightarrow> variates \<Rightarrow> real \<Rightarrow> state \<Rightarrow> error + state" where
  "event clients rs arrival_rate s =
     (if le_xtime (next_arrival s) (next_completion (busy_heap s)) \<and> client_id s < clients
      then arrival_event rs arrival_rate s
      else completion_event s)"

subsection \<open>Assigning queued customers to free servers\<close>

text \<open>
  One pass of the body of \<open>while free_servers and queue\<close>. \<open>free_servers.pop()\<close> and
  \<open>queue.pop(0)\<close> raise \<open>IndexError\<close> on an empty list; the loop calls the body with both
  lists non-empty.
\<close>

definition assign_one :: "variates \<Rightarrow> real \<Rightarrow> state \<Rightarrow> error + state" where
  "assign_one rs service_rate s =
     (if free_servers s = [] then Inl IndexError
      else if queue s = [] then Inl IndexError
      else
        let server_idx = last (free_servers s);
            c = hd (queue s);
            c1 = c\<lparr> service_start := t s \<rparr>
        in case exp_time rs service_rate (drawn s) of
             Inl e \<Rightarrow> Inl e
           | Inr (service_time, k) \<Rightarrow>
               (let c2 = c1\<lparr> service_end := t s + service_time \<rparr>
                in Inr (s\<lparr> free_servers := butlast (free_servers s),
                           queue := tl (queue s),
                           busy_time_sum := busy_time_sum s + service_time,
                           waits := waits s @ [wait c2],
                           busy_heap := heappush (busy_heap s) (service_end c2, server_idx),
                           drawn := k,
                           assigned := assigned s @ [c2] \<rparr>)))"

function assign_all :: "variates \<Rightarrow> real \<Rightarrow> state \<Rightarrow> error + state" where
  "assign_all rs service_rate s =
     (if free_servers s \<noteq> [] \<and> queue s \<noteq> []
      then (case assign_one rs service_rate s of
              Inl e \<Rightarrow> Inl e
            | Inr s' \<Rightarrow> assign_all rs service_rate s')
      else Inr s)"
  by pat_completeness auto
termination
  by (relation "measure (\<lambda>(rs, service_rate, s). length (queue s))")
     (auto simp: assign_one_def Let_def exp_time_def split: if_splits)

declare assign_all.simps [simp del]

subsection \<open>The main loop\<close>

text \<open>
  \<open>while served < clients\<close>: one event, then the assignments. Each pass either generates
  one of the \<open>clients\<close> arrivals or completes one of the \<open>clients\<close> services, which is
  the termination argument.
\<close>

function main_loop :: "int \<Rightarrow> variates \<Rightarrow> real \<Rightarrow> real \<Rightarrow> state \<Rightarrow> error + state" where
  "main_loop clients rs arrival_rate service_rate s =
     (if served s < clients
      then (case event clients rs arrival_rate s of
              Inl e \<Rightarrow> Inl e
            | Inr s1 \<Rightarrow>
                (case assign_all rs service_rate s1 of
                   Inl e \<Rightarrow> Inl e
                 | Inr s2 \<Rightarrow> main_loop clients rs arrival_rate service_rate s2))
      else Inr s)"
  by pat_completeness auto
termination
proof (relation "measure (\<lambda>(clients, rs, arrival_rate, service_rate, s).
                   nat (clients - served s) + nat (clients - client_id s))", goal_cases)
  case 1
  show ?case by simp
next
  case (2 clients rs arrival_rate service_rate s s1 s2)
  have keep: "assign_all r m a = Inr b \<Longrightarrow>
              served b = served a \<and> client_id b = client_id a" for r m a b
  proof (induction r m a rule: assign_all.induct)
    case (1 r m a)
    show ?case
    proof (cases "free_servers a \<noteq> [] \<and> queue a \<noteq> []")
      case True
      from "1.prems" True obtain a' where
        one: "assign_one r m a = Inr a'" and
        rest: "assign_all r m a' = Inr b"
        by (subst (asm) assign_all.simps) (simp split: sum.splits)
      from one have "served a' = served a \<and> client_id a' = client_id a"
        by (auto simp: assign_one_def Let_def exp_time_def split: if_splits)
      with "1.IH" [OF True one rest] show ?thesis by simp
    next
      case False
      with "1.prems" show ?thesis by (subst (asm) assign_all.simps) auto
    qed
  qed
  from 2(2) have step:
    "(served s1 = served s \<and> client_id s1 = client_id s + 1 \<and> client_id s < clients) \<or>
     (served s1 = served s + 1 \<and> client_id s1 = client_id s)"
    by (auto simp: event_def arrival_event_def completion_event_def Let_def exp_time_def
             split: if_splits sum.splits)
  from keep [OF 2(3)] step 2(1) show ?case by auto
qed

declare main_loop.simps [simp del]

subsection \<open>The whole run\<close>

text \<open>
  \<open>run\<close> is \<open>simulate_queue\<close> up to the end of the loop: the three checks of the
  parameters, the first draw, the initial state, the loop. \<open>result\<close> is the tail of
  \<open>simulate_queue\<close>, from \<open>total_time = t\<close> on; \<open>statistics.mean\<close>, called on a non-empty
  list only, is the sum divided by the length. The console display (\<open>viz_print\<close>) only
  reads the state and is left out.
\<close>

definition run :: "int \<Rightarrow> real \<Rightarrow> real \<Rightarrow> int \<Rightarrow> variates \<Rightarrow> error + state" where
  "run clients arrival_rate service_rate counters rs =
     (if counters < 1 then Inl ValueError
      else if clients < 1 then Inl ValueError
      else if arrival_rate \<le> 0 \<or> service_rate \<le> 0 then Inl ValueError
      else (case exp_time rs arrival_rate 0 of
              Inl e \<Rightarrow> Inl e
            | Inr (v, k) \<Rightarrow>
                main_loop clients rs arrival_rate service_rate (init_state counters v k)))"

definition result :: "int \<Rightarrow> real \<Rightarrow> real \<Rightarrow> int \<Rightarrow> state \<Rightarrow> SimResult" where
  "result clients arrival_rate service_rate counters s =
     (let total_time = t s;
          avg_wait = (if waits s \<noteq> []
                      then sum_list (waits s) / real (length (waits s)) else 0);
          utilization = (if total_time > 0
                         then busy_time_sum s / (real_of_int counters * total_time)
                         else 0)
      in \<lparr> res_counters = counters, res_clients = clients,
           res_arrival_rate = arrival_rate, res_service_rate = service_rate,
           res_total_time = total_time, res_avg_wait = avg_wait,
           res_max_queue = max_queue s, res_served = served s,
           res_utilization = utilization, res_waits = waits s,
           res_queue_max_times = queue_max_times s \<rparr>)"

definition simulate_queue :: "int \<Rightarrow> real \<Rightarrow> real \<Rightarrow> int \<Rightarrow> variates \<Rightarrow> error + SimResult" where
  "simulate_queue clients arrival_rate service_rate counters rs =
     (case run clients arrival_rate service_rate counters rs of
        Inl e \<Rightarrow> Inl e
      | Inr s \<Rightarrow> Inr (result clients arrival_rate service_rate counters s))"

subsection \<open>The points of the event loop\<close>

text \<open>
  \<open>Head\<close> is the test of the outer loop, \<open>Assign\<close> the test of the inner loop. \<open>reach\<close> holds
  of the states that a run with the given parameters passes through at these two points:
  the initial state, the state after each event, the state after each assignment.
\<close>

datatype point = Head | Assign

inductive reach :: "int \<Rightarrow> real \<Rightarrow> real \<Rightarrow> int \<Rightarrow> variates \<Rightarrow> point \<Rightarrow> state \<Rightarrow> bool"
  for clients :: int and arrival_rate :: real and service_rate :: real
  and counters :: int and rs :: variates
where
  start:
    "\<lbrakk> 1 \<le> counters; 1 \<le> clients; 0 < arrival_rate; 0 < service_rate;
       exp_time rs arrival_rate 0 = Inr (v, k) \<rbrakk>
     \<Longrightarrow> reach clients arrival_rate service_rate counters rs Head (init_state counters v k)"
| after_event:
    "\<lbrakk> reach clients arrival_rate service_rate counters rs Head s; served s < clients;
       event clients rs arrival_rate s = Inr s' \<rbrakk>
     \<Longrightarrow> reach clients arrival_rate service_rate counters rs Assign s'"
| after_assign:
    "\<lbrakk> reach clients arrival_rate service_rate counters rs Assign s;
       free_servers s \<noteq> [] \<and> queue s \<noteq> [];
       assign_one rs service_rate s = Inr s' \<rbrakk>
     \<Longrightarrow> reach clients arrival_rate service_rate counters rs Assign s'"
| next_pass:
    "\<lbrakk> reach clients arrival_rate service_rate counters rs Assign s;
       \<not> (free_servers s \<noteq> [] \<and> queue s \<noteq> []) \<rbrakk>
     \<Longrightarrow> reach clients arrival_rate service_rate counters rs Head s"

subsection \<open>Orders and example inputs used in the statements\<close>

text \<open>
  \<open>tuple_le\<close> is Python's \<open>\<le>\<close> on pairs. \<open>heap_ok\<close> is the heap invariant of \<open>heapq\<close>:
  no element is smaller than its parent, the parent of index \<open>i\<close> being \<open>(i - 1) div 2\<close>.
\<close>

definition tuple_le :: "real \<times> int \<Rightarrow> real \<times> int \<Rightarrow> bool" where
  "tuple_le a b = (fst a < fst b \<or> (fst a = fst b \<and> snd a \<le> snd b))"

definition heap_ok :: "heap \<Rightarrow> bool" where
  "heap_ok h = (\<forall>i. 0 < i \<and> i < length h \<longrightarrow> tuple_le (h ! ((i - 1) div 2)) (h ! i))"


definition unit_stream :: variates where
  "unit_stream k = 1"

definition first_arrival_state :: state where
  "first_arrival_state =
     \<lparr> t = 1, next_arrival = 2,
       queue = [\<lparr> id' = 1, arrival = 1, service_start = 0, service_end = 0 \<rparr>],
       busy_heap = [], free_servers = [0, 1],
       served = 0, client_id = 1, waits = [], max_queue = 1, queue_max_times = [(1, 1)],
       busy_time_sum = 0, drawn = 2, assigned = [] \<rparr>"

definition tied_state :: state where
  "tied_state =
     \<lparr> t = 1, next_arrival = 2, queue = [], busy_heap = [(2, 1)], free_servers = [0],
       served = 0, client_id = 1, waits = [0], max_queue = 1, queue_max_times = [(1, 1)],
       busy_time_sum = 1, drawn = 3,
       assigned = [\<lparr> id' = 1, arrival = 1, service_start = 1, service_end = 2 \<rparr>] \<rparr>"

definition equal_finish_stream :: variates where
  "equal_finish_stream k = (if k = 2 then 2 else if k = 3 then 5 else 1)"

definition equal_finish_state :: state where
  "equal_finish_state =
     \<lparr> t = 2, next_arrival = 7, queue = [], busy_heap = [(3, 0), (3, 1)], free_servers = [],
       served = 0, client_id = 2, waits = [0, 0], max_queue = 1, queue_max_times = [(1, 1)],
       busy_time_sum = 3, drawn = 5,
       assigned = [\<lparr> id' = 1, arrival = 1, service_start = 1, service_end = 3 \<rparr>,
                   \<lparr> id' = 2, arrival = 2, service_start = 2, service_end = 3 \<rparr>] \<rparr>"

section \<open>Properties\<close>

subsection \<open>The event horizon keeps its order\<close>

lemma tuple_le_iff: "tuple_le a b = (\<not> tuple_lt b a)"
  by (auto simp: tuple_le_def tuple_lt_def)

lemma tuple_le_refl: "tuple_le a a"
  by (simp add: tuple_le_def)

lemma tuple_le_trans: "tuple_le a b \<Longrightarrow> tuple_le b c \<Longrightarrow> tuple_le a c"
  by (auto simp: tuple_le_def)

lemma tuple_lt_le: "tuple_lt a b \<Longrightarrow> tuple_le a b"
  by (auto simp: tuple_le_def tuple_lt_def)

lemma length_siftdown_loop: "length (siftdown_loop h x b pos) = length h"
  by (induction h x b pos rule: siftdown_loop.induct)
     (subst siftdown_loop.simps, simp)

lemma mset_siftdown_loop:
  "pos < length h \<Longrightarrow> mset (siftdown_loop h x b pos) = mset (h[pos := x])"
proof (induction h x b pos rule: siftdown_loop.induct)
  case (1 heap newitem startpos pos)
  let ?p = "(pos - 1) div 2"
  show ?case
  proof (cases "startpos < pos \<and> tuple_lt newitem (heap ! ?p)")
    case True
    then have p: "?p < pos" by linarith
    with "1.prems" have pl: "?p < length heap" by simp
    from True have "siftdown_loop heap newitem startpos pos
        = siftdown_loop (heap[pos := heap ! ?p]) newitem startpos ?p"
      by (subst siftdown_loop.simps) simp
    also from True pl have "mset \<dots> = mset (heap[pos := heap ! ?p, ?p := newitem])"
      by (intro "1.IH") simp_all
    also from p pl "1.prems" have "\<dots> = mset (heap[pos := newitem])"
      by (simp add: mset_update)
    finally show ?thesis .
  next
    case False
    then show ?thesis by (subst siftdown_loop.simps) auto
  qed
qed

lemma child_cases:
  "0 < c \<Longrightarrow> ((c - 1) div 2 = p) = (c = 2 * p + 1 \<or> c = 2 * p + 2)" for c p :: nat
  by presburger

lemma heap_ok_siftdown_loop:
  assumes "pos < length h"
    and "\<forall>i. 0 < i \<and> i < length h \<and> i \<noteq> pos \<longrightarrow> tuple_le (h ! ((i - 1) div 2)) (h ! i)"
    and "\<forall>c. 0 < c \<and> c < length h \<and> (c - 1) div 2 = pos \<longrightarrow> tuple_le x (h ! c)"
    and "0 < pos \<longrightarrow> (\<forall>c. 0 < c \<and> c < length h \<and> (c - 1) div 2 = pos
                    \<longrightarrow> tuple_le (h ! ((pos - 1) div 2)) (h ! c))"
  shows "heap_ok (siftdown_loop h x 0 pos)"
  using assms
proof (induction pos arbitrary: h rule: less_induct)
  case (less pos)
  let ?p = "(pos - 1) div 2"
  note others = less.prems(2) and below = less.prems(3) and grand = less.prems(4)
  show ?case
  proof (cases "0 < pos \<and> tuple_lt x (h ! ?p)")
    case True
    then have pp: "?p < pos" by linarith
    with less.prems(1) have pl: "?p < length h" by simp
    let ?h = "h[pos := h ! ?p]"
    from True have eq: "siftdown_loop h x 0 pos = siftdown_loop ?h x 0 ?p"
      by (subst siftdown_loop.simps) simp
    have 1: "?p < length ?h" using pl by simp
    have 2: "\<forall>i. 0 < i \<and> i < length ?h \<and> i \<noteq> ?p
               \<longrightarrow> tuple_le (?h ! ((i - 1) div 2)) (?h ! i)"
    proof (intro allI impI)
      fix i assume i: "0 < i \<and> i < length ?h \<and> i \<noteq> ?p"
      show "tuple_le (?h ! ((i - 1) div 2)) (?h ! i)"
      proof (cases "i = pos")
        case True
        with pp less.prems(1) show ?thesis by (simp add: tuple_le_refl)
      next
        case ne: False
        show ?thesis
        proof (cases "(i - 1) div 2 = pos")
          case True
          with grand i \<open>0 < pos \<and> tuple_lt x (h ! ?p)\<close>
          have "tuple_le (h ! ?p) (h ! i)" by simp
          with True ne less.prems(1) show ?thesis by simp
        next
          case False
          with others i ne show ?thesis by simp
        qed
      qed
    qed
    have 3: "\<forall>c. 0 < c \<and> c < length ?h \<and> (c - 1) div 2 = ?p \<longrightarrow> tuple_le x (?h ! c)"
    proof (intro allI impI)
      fix c assume c: "0 < c \<and> c < length ?h \<and> (c - 1) div 2 = ?p"
      from True have xp: "tuple_le x (h ! ?p)" by (simp add: tuple_lt_le)
      show "tuple_le x (?h ! c)"
      proof (cases "c = pos")
        case True
        with xp less.prems(1) show ?thesis by simp
      next
        case False
        with others c have "tuple_le (h ! ?p) (h ! c)" by auto
        with xp False show ?thesis by (auto intro: tuple_le_trans)
      qed
    qed
    have 4: "0 < ?p \<longrightarrow> (\<forall>c. 0 < c \<and> c < length ?h \<and> (c - 1) div 2 = ?p
                    \<longrightarrow> tuple_le (?h ! ((?p - 1) div 2)) (?h ! c))"
    proof (intro allI impI)
      fix c assume p0: "0 < ?p" and c: "0 < c \<and> c < length ?h \<and> (c - 1) div 2 = ?p"
      from p0 pp have gp: "(?p - 1) div 2 \<noteq> pos" by linarith
      from others p0 pl pp have g: "tuple_le (h ! ((?p - 1) div 2)) (h ! ?p)" by simp
      show "tuple_le (?h ! ((?p - 1) div 2)) (?h ! c)"
      proof (cases "c = pos")
        case True
        with g gp less.prems(1) show ?thesis by simp
      next
        case False
        with others c have "tuple_le (h ! ?p) (h ! c)" by auto
        with g have "tuple_le (h ! ((?p - 1) div 2)) (h ! c)" by (rule tuple_le_trans)
        with False gp show ?thesis by simp
      qed
    qed
    from less.IH [OF pp 1 2 3 4] eq show ?thesis by simp
  next
    case False
    then have eq: "siftdown_loop h x 0 pos = h[pos := x]"
      by (subst siftdown_loop.simps) auto
    have "heap_ok (h[pos := x])"
      unfolding heap_ok_def
    proof (intro allI impI)
      fix i assume i: "0 < i \<and> i < length (h[pos := x])"
      show "tuple_le (h[pos := x] ! ((i - 1) div 2)) (h[pos := x] ! i)"
      proof (cases "i = pos")
        case True
        with i False have "tuple_le (h ! ?p) x" by (simp add: tuple_le_iff)
        moreover from True i have "?p \<noteq> pos" by linarith
        ultimately show ?thesis using True less.prems(1) by simp
      next
        case ne: False
        show ?thesis
        proof (cases "(i - 1) div 2 = pos")
          case True
          with below i have "tuple_le x (h ! i)" by simp
          with True ne less.prems(1) show ?thesis by simp
        next
          case False
          with others i ne show ?thesis by simp
        qed
      qed
    qed
    with eq show ?thesis by simp
  qed
qed

lemma smaller_child_cases:
  assumes "2 * pos + 1 < length h"
  shows "smaller_child h (2 * pos + 1) < length h"
    and "pos < smaller_child h (2 * pos + 1)"
    and "(smaller_child h (2 * pos + 1) - 1) div 2 = pos"
    and "\<And>c. 0 < c \<Longrightarrow> c < length h \<Longrightarrow> (c - 1) div 2 = pos
           \<Longrightarrow> tuple_le (h ! smaller_child h (2 * pos + 1)) (h ! c)"
proof -
  let ?c = "smaller_child h (2 * pos + 1)"
  from assms show "?c < length h" by (simp add: smaller_child_def)
  show "pos < ?c" by (simp add: smaller_child_def)
  show "(?c - 1) div 2 = pos" by (simp add: smaller_child_def)
  fix c :: nat assume c: "0 < c" "c < length h" "(c - 1) div 2 = pos"
  then have "c = 2 * pos + 1 \<or> c = 2 * pos + 2" by presburger
  then show "tuple_le (h ! ?c) (h ! c)"
  proof
    assume "c = 2 * pos + 1"
    then show ?thesis
      by (auto simp: smaller_child_def tuple_le_refl tuple_le_iff tuple_lt_def)
  next
    assume "c = 2 * pos + 2"
    with c(2) show ?thesis
      by (auto simp: smaller_child_def tuple_le_refl tuple_lt_le)
  qed
qed

lemma siftup_loop_props:
  assumes "siftup_loop h pos = (h1, pos1)"
    and "pos < length h"
    and "\<forall>i. 0 < i \<and> i < length h \<and> i \<noteq> pos \<and> (i - 1) div 2 \<noteq> pos
           \<longrightarrow> tuple_le (h ! ((i - 1) div 2)) (h ! i)"
    and "0 < pos \<longrightarrow> (\<forall>c. 0 < c \<and> c < length h \<and> (c - 1) div 2 = pos
                    \<longrightarrow> tuple_le (h ! ((pos - 1) div 2)) (h ! c))"
  shows "length h1 = length h \<and> pos1 < length h \<and> length h \<le> 2 * pos1 + 1
       \<and> (\<forall>i. 0 < i \<and> i < length h \<and> i \<noteq> pos1
              \<longrightarrow> tuple_le (h1 ! ((i - 1) div 2)) (h1 ! i))
       \<and> mset (h1[pos1 := x]) = mset (h[pos := x])"
  using assms
proof (induction h pos rule: siftup_loop.induct)
  case (1 heap pos)
  let ?c = "smaller_child heap (2 * pos + 1)"
  note others = "1.prems"(3) and grand = "1.prems"(4)
  show ?case
  proof (cases "2 * pos + 1 < length heap")
    case True
    note sc = smaller_child_cases [OF True]
    let ?h = "heap[pos := heap ! ?c]"
    from True "1.prems"(1) have eq: "siftup_loop ?h ?c = (h1, pos1)"
      by (subst (asm) siftup_loop.simps) simp
    have 2: "?c < length ?h" using sc(1) by simp
    have 3: "\<forall>i. 0 < i \<and> i < length ?h \<and> i \<noteq> ?c \<and> (i - 1) div 2 \<noteq> ?c
           \<longrightarrow> tuple_le (?h ! ((i - 1) div 2)) (?h ! i)"
    proof (intro allI impI)
      fix i assume i: "0 < i \<and> i < length ?h \<and> i \<noteq> ?c \<and> (i - 1) div 2 \<noteq> ?c"
      show "tuple_le (?h ! ((i - 1) div 2)) (?h ! i)"
      proof (cases "i = pos")
        case True
        with i have p0: "0 < pos" by simp
        from True i have np: "(i - 1) div 2 \<noteq> pos" by linarith
        from grand p0 sc(1) sc(2) sc(3)
        have "tuple_le (heap ! ((pos - 1) div 2)) (heap ! ?c)" by simp
        with True np "1.prems"(2) show ?thesis by simp
      next
        case ne: False
        show ?thesis
        proof (cases "(i - 1) div 2 = pos")
          case True
          with i have "tuple_le (heap ! ?c) (heap ! i)" by (intro sc(4)) simp_all
          with True ne "1.prems"(2) show ?thesis by simp
        next
          case False
          with others i ne show ?thesis by simp
        qed
      qed
    qed
    have 4: "0 < ?c \<longrightarrow> (\<forall>c. 0 < c \<and> c < length ?h \<and> (c - 1) div 2 = ?c
                    \<longrightarrow> tuple_le (?h ! ((?c - 1) div 2)) (?h ! c))"
    proof (intro allI impI)
      fix c assume c: "0 < c \<and> c < length ?h \<and> (c - 1) div 2 = ?c"
      with sc(2) have cp: "c \<noteq> pos" "(c - 1) div 2 \<noteq> pos" by linarith+
      with c have "0 < c \<and> c < length heap \<and> c \<noteq> pos \<and> (c - 1) div 2 \<noteq> pos"
        by simp
      from others [rule_format, OF this]
      have "tuple_le (heap ! ((c - 1) div 2)) (heap ! c)" .
      with c have "tuple_le (heap ! ?c) (heap ! c)" by simp
      with cp sc(3) "1.prems"(2) show "tuple_le (?h ! ((?c - 1) div 2)) (?h ! c)" by simp
    qed
    from "1.IH" [OF True eq 2 3 4]
    have r: "length h1 = length ?h \<and> pos1 < length ?h \<and> length ?h \<le> 2 * pos1 + 1
       \<and> (\<forall>i. 0 < i \<and> i < length ?h \<and> i \<noteq> pos1
              \<longrightarrow> tuple_le (h1 ! ((i - 1) div 2)) (h1 ! i))
       \<and> mset (h1[pos1 := x]) = mset (?h[?c := x])" .
    from sc(1) sc(2) "1.prems"(2)
    have "mset (?h[?c := x]) = mset (heap[pos := x])"
      by (simp add: mset_update)
    with r show ?thesis by simp
  next
    case False
    with "1.prems"(1) have eq: "h1 = heap" "pos1 = pos"
      by (subst (asm) siftup_loop.simps, simp)+
    have "\<forall>i. 0 < i \<and> i < length heap \<and> i \<noteq> pos
              \<longrightarrow> tuple_le (heap ! ((i - 1) div 2)) (heap ! i)"
    proof (intro allI impI)
      fix i assume i: "0 < i \<and> i < length heap \<and> i \<noteq> pos"
      with False have "(i - 1) div 2 \<noteq> pos" by linarith
      with others i show "tuple_le (heap ! ((i - 1) div 2)) (heap ! i)" by simp
    qed
    with False "1.prems"(2) eq show ?thesis by simp
  qed
qed

lemma heap_ok_Nil: "heap_ok []"
  by (simp add: heap_ok_def)

lemma heap_ok_butlast:
  assumes "heap_ok h"
  shows "heap_ok (butlast h)"
  unfolding heap_ok_def
proof (intro allI impI)
  fix i assume "0 < i \<and> i < length (butlast h)"
  then have i: "0 < i" "i < length h - 1" by simp_all
  then have p: "(i - 1) div 2 < length h - 1" by linarith
  from i assms have "tuple_le (h ! ((i - 1) div 2)) (h ! i)" by (simp add: heap_ok_def)
  with i p show "tuple_le (butlast h ! ((i - 1) div 2)) (butlast h ! i)"
    by (simp add: nth_butlast)
qed

lemma heap_ok_root_least:
  assumes "heap_ok h" "i < length h"
  shows "tuple_le (h ! 0) (h ! i)"
  using assms(2)
proof (induction i rule: less_induct)
  case (less i)
  show ?case
  proof (cases "i = 0")
    case True
    then show ?thesis by (simp add: tuple_le_refl)
  next
    case False
    then have p: "(i - 1) div 2 < i" by linarith
    with less.prems have "(i - 1) div 2 < length h" by simp
    from less.IH [OF p this] have "tuple_le (h ! 0) (h ! ((i - 1) div 2))" .
    moreover from assms(1) False less.prems
    have "tuple_le (h ! ((i - 1) div 2)) (h ! i)" by (simp add: heap_ok_def)
    ultimately show ?thesis by (rule tuple_le_trans)
  qed
qed

lemma heap_ok_least:
  assumes "heap_ok h" "e \<in> set h"
  shows "tuple_le (h ! 0) e"
proof -
  from assms(2) obtain i where "i < length h" "h ! i = e" by (auto simp: in_set_conv_nth)
  with heap_ok_root_least [OF assms(1), of i] show ?thesis by simp
qed

lemma heappush_eq: "heappush h x = siftdown_loop (h @ [x]) x 0 (length h)"
  by (simp add: heappush_def siftdown_def)

lemma mset_heappush: "mset (heappush h x) = add_mset x (mset h)"
  by (simp add: heappush_eq mset_siftdown_loop)

lemma heap_ok_heappush:
  assumes "heap_ok h"
  shows "heap_ok (heappush h x)"
  unfolding heappush_eq
proof (rule heap_ok_siftdown_loop)
  show "length h < length (h @ [x])" by simp
  show "\<forall>i. 0 < i \<and> i < length (h @ [x]) \<and> i \<noteq> length h
          \<longrightarrow> tuple_le ((h @ [x]) ! ((i - 1) div 2)) ((h @ [x]) ! i)"
  proof (intro allI impI)
    fix i assume "0 < i \<and> i < length (h @ [x]) \<and> i \<noteq> length h"
    then have i: "0 < i" "i < length h" by simp_all
    then have "(i - 1) div 2 < length h" by linarith
    with i assms show "tuple_le ((h @ [x]) ! ((i - 1) div 2)) ((h @ [x]) ! i)"
      by (simp add: heap_ok_def nth_append)
  qed
  show "\<forall>c. 0 < c \<and> c < length (h @ [x]) \<and> (c - 1) div 2 = length h
          \<longrightarrow> tuple_le x ((h @ [x]) ! c)"
  proof (intro allI impI)
    fix c assume "0 < c \<and> c < length (h @ [x]) \<and> (c - 1) div 2 = length h"
    then have False by (simp, linarith)
    then show "tuple_le x ((h @ [x]) ! c)" ..
  qed
  show "0 < length h \<longrightarrow> (\<forall>c. 0 < c \<and> c < length (h @ [x]) \<and> (c - 1) div 2 = length h
          \<longrightarrow> tuple_le ((h @ [x]) ! ((length h - 1) div 2)) ((h @ [x]) ! c))"
  proof (intro allI impI)
    fix c assume "0 < c \<and> c < length (h @ [x]) \<and> (c - 1) div 2 = length h"
    then have False by (simp, linarith)
    then show "tuple_le ((h @ [x]) ! ((length h - 1) div 2)) ((h @ [x]) ! c)" ..
  qed
qed

lemma siftup_root:
  assumes ne: "h \<noteq> []"
    and ok: "\<forall>i. 0 < i \<and> i < length h \<and> (i - 1) div 2 \<noteq> 0
               \<longrightarrow> tuple_le (h ! ((i - 1) div 2)) (h ! i)"
  shows "heap_ok (siftup h 0)" and "mset (siftup h 0) = mset h"
proof -
  obtain g q where sl: "siftup_loop h 0 = (g, q)" by (cases "siftup_loop h 0")
  let ?n = "h ! 0"
  from ne have l: "0 < length h" by simp
  have a3: "\<forall>i. 0 < i \<and> i < length h \<and> i \<noteq> 0 \<and> (i - 1) div 2 \<noteq> 0
           \<longrightarrow> tuple_le (h ! ((i - 1) div 2)) (h ! i)"
    using ok by simp
  have a4: "0 < (0::nat) \<longrightarrow> (\<forall>c. 0 < c \<and> c < length h \<and> (c - 1) div 2 = 0
                    \<longrightarrow> tuple_le (h ! ((0 - 1) div 2)) (h ! c))"
    by simp
  from siftup_loop_props [OF sl l a3 a4, of ?n]
  have gl: "length g = length h" and ql: "q < length h" and leaf: "length h \<le> 2 * q + 1"
    and go: "\<forall>i. 0 < i \<and> i < length h \<and> i \<noteq> q \<longrightarrow> tuple_le (g ! ((i - 1) div 2)) (g ! i)"
    and gm: "mset (g[q := ?n]) = mset (h[0 := ?n])"
    by simp_all
  let ?g = "g[q := ?n]"
  from sl ql gl have eq: "siftup h 0 = siftdown_loop ?g ?n 0 q"
    by (simp add: siftup_def siftdown_def Let_def)
  have b1: "q < length ?g" using ql gl by simp
  have b2: "\<forall>i. 0 < i \<and> i < length ?g \<and> i \<noteq> q
              \<longrightarrow> tuple_le (?g ! ((i - 1) div 2)) (?g ! i)"
  proof (intro allI impI)
    fix i assume i: "0 < i \<and> i < length ?g \<and> i \<noteq> q"
    with leaf gl have "(i - 1) div 2 \<noteq> q" by (simp, linarith)
    moreover from i gl have "0 < i \<and> i < length h \<and> i \<noteq> q" by simp
    from go [rule_format, OF this] have "tuple_le (g ! ((i - 1) div 2)) (g ! i)" .
    ultimately show "tuple_le (?g ! ((i - 1) div 2)) (?g ! i)" using i by simp
  qed
  have b3: "\<forall>c. 0 < c \<and> c < length ?g \<and> (c - 1) div 2 = q \<longrightarrow> tuple_le ?n (?g ! c)"
  proof (intro allI impI)
    fix c assume "0 < c \<and> c < length ?g \<and> (c - 1) div 2 = q"
    with leaf gl have False by (simp, linarith)
    then show "tuple_le ?n (?g ! c)" ..
  qed
  have b4: "0 < q \<longrightarrow> (\<forall>c. 0 < c \<and> c < length ?g \<and> (c - 1) div 2 = q
                    \<longrightarrow> tuple_le (?g ! ((q - 1) div 2)) (?g ! c))"
  proof (intro allI impI)
    fix c assume "0 < c \<and> c < length ?g \<and> (c - 1) div 2 = q"
    with leaf gl have False by (simp, linarith)
    then show "tuple_le (?g ! ((q - 1) div 2)) (?g ! c)" ..
  qed
  from heap_ok_siftdown_loop [OF b1 b2 b3 b4] eq show "heap_ok (siftup h 0)" by simp
  from mset_siftdown_loop [OF b1, of ?n 0] eq gm show "mset (siftup h 0) = mset h"
    by simp
qed

lemma heappop_Nil: "heappop [] = Inl IndexError"
  by (simp add: heappop_def)

lemma heappop_ok: "h \<noteq> [] \<Longrightarrow> \<exists>x h'. heappop h = Inr (x, h')"
  by (simp add: heappop_def Let_def)

lemma heappop_single: "heappop [l] = Inr (l, [])"
  by (simp add: heappop_def)

lemma heappop_many: "b \<noteq> [] \<Longrightarrow> heappop (b @ [l]) = Inr (b ! 0, siftup (b[0 := l]) 0)"
  by (simp add: heappop_def Let_def)

lemma siftup_replaced_root:
  assumes "b \<noteq> []" "heap_ok b"
  shows "heap_ok (siftup (b[0 := l]) 0)"
proof (rule siftup_root(1))
  from assms(1) show "b[0 := l] \<noteq> []" by simp
  show "\<forall>i. 0 < i \<and> i < length (b[0 := l]) \<and> (i - 1) div 2 \<noteq> 0
          \<longrightarrow> tuple_le (b[0 := l] ! ((i - 1) div 2)) (b[0 := l] ! i)"
    using assms(2) by (simp add: heap_ok_def)
qed

lemma heappop_props:
  assumes "heappop h = Inr (x, h')"
  shows "h \<noteq> []" and "x = h ! 0" and "heap_ok h \<Longrightarrow> heap_ok h'"
proof -
  from assms show ne: "h \<noteq> []" by (auto simp: heappop_def)
  then obtain b l where h: "h = b @ [l]" by (cases h rule: rev_cases) auto
  show "x = h ! 0"
  proof (cases "b = []")
    case True
    with assms h show ?thesis by (simp add: heappop_single)
  next
    case False
    with assms h show ?thesis by (simp add: heappop_many nth_append)
  qed
  assume ok: "heap_ok h"
  show "heap_ok h'"
  proof (cases "b = []")
    case True
    with assms h show ?thesis by (simp add: heappop_single heap_ok_Nil)
  next
    case False
    from ok h have "heap_ok b" using heap_ok_butlast [of h] by simp
    from siftup_replaced_root [OF False this, of l] assms h False show ?thesis
      by (simp add: heappop_many)
  qed
qed

lemma siftup_loop_mset:
  assumes "siftup_loop h pos = (h1, pos1)" and "pos < length h"
  shows "length h1 = length h \<and> pos1 < length h
       \<and> mset (h1[pos1 := x]) = mset (h[pos := x])"
  using assms
proof (induction h pos rule: siftup_loop.induct)
  case (1 heap pos)
  let ?c = "smaller_child heap (2 * pos + 1)"
  show ?case
  proof (cases "2 * pos + 1 < length heap")
    case True
    note sc = smaller_child_cases(1,2) [OF True]
    let ?h = "heap[pos := heap ! ?c]"
    from True "1.prems"(1) have eq: "siftup_loop ?h ?c = (h1, pos1)"
      by (subst (asm) siftup_loop.simps) simp
    from sc(1) have "?c < length ?h" by simp
    from "1.IH" [OF True eq this]
    have r: "length h1 = length ?h \<and> pos1 < length ?h
       \<and> mset (h1[pos1 := x]) = mset (?h[?c := x])" .
    from sc "1.prems"(2) have "mset (?h[?c := x]) = mset (heap[pos := x])"
      by (simp add: mset_update)
    with r show ?thesis by simp
  next
    case False
    with "1.prems"(1) have "h1 = heap" "pos1 = pos"
      by (subst (asm) siftup_loop.simps, simp)+
    with "1.prems"(2) show ?thesis by simp
  qed
qed

lemma mset_siftup:
  assumes "h \<noteq> []"
  shows "mset (siftup h 0) = mset h"
proof -
  obtain g q where sl: "siftup_loop h 0 = (g, q)" by (cases "siftup_loop h 0")
  from assms have l: "0 < length h" by simp
  from siftup_loop_mset [OF sl l, of "h ! 0"]
  have gl: "length g = length h" and ql: "q < length h"
    and gm: "mset (g[q := h ! 0]) = mset h"
    by simp_all
  from sl have "siftup h 0 = siftdown_loop (g[q := h ! 0]) (g[q := h ! 0] ! q) 0 q"
    by (simp add: siftup_def siftdown_def Let_def)
  with ql gl have "siftup h 0 = siftdown_loop (g[q := h ! 0]) (h ! 0) 0 q" by simp
  with ql gl gm show ?thesis by (simp add: mset_siftdown_loop)
qed

lemma heappop_mset:
  assumes "heappop h = Inr (x, h')"
  shows "mset h = add_mset x (mset h')"
proof -
  from assms have "h \<noteq> []" by (auto simp: heappop_def)
  then obtain b l where h: "h = b @ [l]" by (cases h rule: rev_cases) auto
  show ?thesis
  proof (cases "b = []")
    case True
    with assms h show ?thesis by (simp add: heappop_single)
  next
    case False
    with assms h have x: "x = b ! 0" and h': "h' = siftup (b[0 := l]) 0"
      by (simp_all add: heappop_many)
    from False have "mset h' = mset (b[0 := l])" unfolding h' by (intro mset_siftup) simp
    also from False have "\<dots> = add_mset l (mset b - {#b ! 0#})" by (simp add: mset_update)
    finally have "add_mset x (mset h') = add_mset l (add_mset (b ! 0) (mset b - {#b ! 0#}))"
      by (simp add: x)
    also from False have "add_mset (b ! 0) (mset b - {#b ! 0#}) = mset b" by simp
    finally show ?thesis by (simp add: h)
  qed
qed

lemma heappop_set:
  assumes "heappop h = Inr (x, h')"
  shows "set h = insert x (set h')" and "length h = Suc (length h')"
proof -
  from heappop_mset [OF assms] have m: "mset h = add_mset x (mset h')" .
  from arg_cong [OF m, of set_mset] show "set h = insert x (set h')" by simp
  from arg_cong [OF m, of size] show "length h = Suc (length h')" by simp
qed

lemma set_heappush: "set (heappush h x) = insert x (set h)"
  using arg_cong [OF mset_heappush [of h x], of set_mset] by simp

lemma length_heappush: "length (heappush h x) = Suc (length h)"
  using arg_cong [OF mset_heappush [of h x], of size] by simp




lemma distinct_snd_heappush:
  assumes "distinct (map snd h)" "snd x \<notin> set (map snd h)"
  shows "distinct (map snd (heappush h x))"
proof -
  have "mset (map snd (heappush h x)) = mset (snd x # map snd h)"
    by (simp add: mset_heappush)
  from mset_eq_imp_distinct_iff [OF this] assms show ?thesis by simp
qed

lemma distinct_snd_heappop:
  assumes "heappop h = Inr (x, h')" "distinct (map snd h)"
  shows "distinct (map snd h')" "snd x \<notin> set (map snd h')"
proof -
  have "mset (map snd h) = mset (snd x # map snd h')"
    by (simp add: heappop_mset [OF assms(1)])
  from mset_eq_imp_distinct_iff [OF this] assms(2)
  show "distinct (map snd h')" "snd x \<notin> set (map snd h')" by simp_all
qed

lemma heappush_Nil: "heappush [] x = [x]"
  by (simp add: heappush_def siftdown_def siftdown_loop.simps)

subsection \<open>What one step changes\<close>

lemma exp_time_pos: "0 < rate \<Longrightarrow> exp_time rs rate k = Inr (rs k, Suc k)"
  by (simp add: exp_time_def)

lemma arrival_event_fields:
  assumes "arrival_event rs arrival_rate s = Inr s'"
  shows "t s' = next_arrival s"
    and "next_arrival s' = next_arrival s + rs (drawn s)"
    and "queue s' = queue s @ [\<lparr> id' = client_id s + 1, arrival = next_arrival s,
                                 service_start = 0, service_end = 0 \<rparr>]"
    and "busy_heap s' = busy_heap s"
    and "free_servers s' = free_servers s"
    and "served s' = served s"
    and "client_id s' = client_id s + 1"
    and "waits s' = waits s"
    and "max_queue s' = max (max_queue s) (int (length (queue s)) + 1)"
    and "queue_max_times s' =
           (if max_queue s < int (length (queue s)) + 1
            then queue_max_times s @ [(next_arrival s, int (length (queue s)) + 1)]
            else queue_max_times s)"
    and "busy_time_sum s' = busy_time_sum s"
    and "drawn s' = Suc (drawn s)"
    and "assigned s' = assigned s"
  using assms
  by (auto simp: arrival_event_def Let_def exp_time_def split: if_splits)

lemma completion_event_fields:
  assumes "completion_event s = Inr s'"
  shows "heappop (busy_heap s) = Inr ((t s', snd (busy_heap s ! 0)), busy_heap s')"
    and "free_servers s' = free_servers s @ [snd (busy_heap s ! 0)]"
    and "next_arrival s' = next_arrival s"
    and "queue s' = queue s"
    and "served s' = served s + 1"
    and "client_id s' = client_id s"
    and "waits s' = waits s"
    and "max_queue s' = max_queue s"
    and "queue_max_times s' = queue_max_times s"
    and "busy_time_sum s' = busy_time_sum s"
    and "drawn s' = drawn s"
    and "assigned s' = assigned s"
    and "t s' = fst (busy_heap s ! 0)"
    and "busy_heap s \<noteq> []"
proof -
  from assms obtain x h where p: "heappop (busy_heap s) = Inr (x, h)"
    and s': "s' = s\<lparr> t := fst x, busy_heap := h, served := served s + 1,
                      free_servers := free_servers s @ [snd x] \<rparr>"
    by (auto simp: completion_event_def split: sum.splits)
  note r = heappop_props(1,2) [OF p]
  from r(1) show "busy_heap s \<noteq> []" .
  from p r(2) show "heappop (busy_heap s) = Inr ((t s', snd (busy_heap s ! 0)), busy_heap s')"
    by (simp add: s')
  from r(2) show "free_servers s' = free_servers s @ [snd (busy_heap s ! 0)]"
    and "t s' = fst (busy_heap s ! 0)"
    by (simp_all add: s')
  show "next_arrival s' = next_arrival s" "queue s' = queue s" "served s' = served s + 1"
    "client_id s' = client_id s" "waits s' = waits s" "max_queue s' = max_queue s"
    "queue_max_times s' = queue_max_times s" "busy_time_sum s' = busy_time_sum s"
    "drawn s' = drawn s" "assigned s' = assigned s"
    by (simp_all add: s')
qed

lemma assign_one_fields:
  assumes "assign_one rs service_rate s = Inr s'"
  shows "t s' = t s"
    and "next_arrival s' = next_arrival s"
    and "queue s' = tl (queue s)"
    and "busy_heap s' =
           heappush (busy_heap s) (t s + rs (drawn s), last (free_servers s))"
    and "free_servers s' = butlast (free_servers s)"
    and "served s' = served s"
    and "client_id s' = client_id s"
    and "waits s' = waits s @ [t s - arrival (hd (queue s))]"
    and "max_queue s' = max_queue s"
    and "queue_max_times s' = queue_max_times s"
    and "busy_time_sum s' = busy_time_sum s + rs (drawn s)"
    and "drawn s' = Suc (drawn s)"
    and "assigned s' = assigned s @ [(hd (queue s))\<lparr> service_start := t s,
                                        service_end := t s + rs (drawn s) \<rparr>]"
  using assms
  by (auto simp: assign_one_def Let_def exp_time_def wait_def split: if_splits)

lemma arrival_event_ok:
  "0 < arrival_rate \<Longrightarrow> \<exists>s'. arrival_event rs arrival_rate s = Inr s'"
  by (simp add: arrival_event_def Let_def exp_time_def)

lemma completion_event_ok:
  assumes "busy_heap s \<noteq> []"
  shows "\<exists>s'. completion_event s = Inr s'"
proof -
  from heappop_ok [OF assms] obtain x h where "heappop (busy_heap s) = Inr (x, h)"
    by blast
  then show ?thesis by (cases x) (simp add: completion_event_def)
qed

lemma assign_one_ok:
  "0 < service_rate \<Longrightarrow> free_servers s \<noteq> [] \<and> queue s \<noteq> []
   \<Longrightarrow> \<exists>s'. assign_one rs service_rate s = Inr s'"
  by (simp add: assign_one_def Let_def exp_time_def)

subsection \<open>Percentile helpers\<close>

lemma getitem_in_range:
  "0 \<le> i \<Longrightarrow> i < int (length xs) \<Longrightarrow> getitem xs i = Inr (xs ! nat i)"
  by (simp add: getitem_def)

lemma pct_rank_bounds:
  assumes "values \<noteq> []" "0 \<le> p" "p \<le> 100"
  defines "k \<equiv> (p / 100) * real_of_int (int (length values) - 1)"
  shows "0 \<le> \<lfloor>k\<rfloor>" "\<lceil>k\<rceil> < int (length values)"
proof -
  let ?n = "int (length values)"
  from assms(1) have n: "1 \<le> ?n" by (cases "values") simp_all
  then have m: "0 \<le> real_of_int (?n - 1)" by simp
  from assms(2) m have k0: "0 \<le> k" unfolding k_def by simp
  have "p / 100 \<le> 1" using assms(3) by simp
  with m have "k \<le> 1 * real_of_int (?n - 1)" unfolding k_def
    by (intro mult_right_mono) simp_all
  then have k1: "k \<le> real_of_int (?n - 1)" by simp
  from k0 show "0 \<le> \<lfloor>k\<rfloor>" by simp
  from k1 have "\<lceil>k\<rceil> \<le> ?n - 1" by (rule ceiling_le)
  then show "\<lceil>k\<rceil> < ?n" by simp
qed

subsection \<open>Invariants of the event loop\<close>

lemma event_cases:
  assumes "event clients rs arrival_rate s = Inr s'"
  obtains
    (arrival) "le_xtime (next_arrival s) (next_completion (busy_heap s))"
      "client_id s < clients" "arrival_event rs arrival_rate s = Inr s'"
  | (completion) "\<not> (le_xtime (next_arrival s) (next_completion (busy_heap s)) \<and>
         client_id s < clients)" "completion_event s = Inr s'"
  using assms by (auto simp: event_def split: if_splits)

lemma init_state_fields:
  "t (init_state counters v k) = 0"
  "next_arrival (init_state counters v k) = v"
  "queue (init_state counters v k) = []"
  "busy_heap (init_state counters v k) = []"
  "free_servers (init_state counters v k) = [0 .. counters - 1]"
  "served (init_state counters v k) = 0"
  "client_id (init_state counters v k) = 0"
  "waits (init_state counters v k) = []"
  "max_queue (init_state counters v k) = 0"
  "queue_max_times (init_state counters v k) = []"
  "busy_time_sum (init_state counters v k) = 0"
  "drawn (init_state counters v k) = k"
  "assigned (init_state counters v k) = []"
  by (simp_all add: init_state_def)

lemma reach_servers:
  assumes "reach clients arrival_rate service_rate counters rs p s"
  shows "int (length (busy_heap s)) + int (length (free_servers s)) = counters
       \<and> distinct (map snd (busy_heap s) @ free_servers s)
       \<and> set (map snd (busy_heap s)) \<union> set (free_servers s) = {0 .. counters - 1}"
  using assms
proof (induction rule: reach.induct)
  case (start v k)
  then show ?case by (simp add: init_state_fields)
next
  case (after_event s s')
  from after_event.hyps(3) show ?case
  proof (cases rule: event_cases)
    case arrival
    with after_event.IH show ?thesis by (simp add: arrival_event_fields)
  next
    case completion
    note f = completion_event_fields [OF completion(2)]
    let ?i = "snd (busy_heap s ! 0)"
    from heappop_set [OF f(1)]
    have st: "set (busy_heap s) = insert (t s', ?i) (set (busy_heap s'))"
      and ln: "length (busy_heap s) = Suc (length (busy_heap s'))" .
    from st have sn: "set (map snd (busy_heap s)) = insert ?i (set (map snd (busy_heap s')))"
      by simp
    from after_event.IH have "distinct (map snd (busy_heap s))" by simp
    from distinct_snd_heappop [OF f(1) this]
    have d: "distinct (map snd (busy_heap s'))" "?i \<notin> set (map snd (busy_heap s'))"
      by simp_all
    from after_event.IH have
      c: "int (length (busy_heap s)) + int (length (free_servers s)) = counters" and
      df: "distinct (free_servers s)" and
      dj: "set (map snd (busy_heap s)) \<inter> set (free_servers s) = {}" and
      un: "set (map snd (busy_heap s)) \<union> set (free_servers s) = {0 .. counters - 1}"
      by simp_all
    from c ln have 1: "int (length (busy_heap s')) + int (length (free_servers s')) = counters"
      unfolding f(2) by simp
    from d df dj sn have 2: "distinct (map snd (busy_heap s') @ free_servers s')"
      unfolding f(2) by auto
    from un sn have 3: "set (map snd (busy_heap s')) \<union> set (free_servers s')
                        = {0 .. counters - 1}"
      unfolding f(2) by auto
    from 1 2 3 show ?thesis by blast
  qed
next
  case (after_assign s s')
  note f = assign_one_fields [OF after_assign.hyps(3)]
  from after_assign.hyps(2) obtain ys y where fs: "free_servers s = ys @ [y]"
    by (cases "free_servers s" rule: rev_cases) auto
  from after_assign.IH show ?case
    unfolding f(4) f(5) fs
    by (auto simp: length_heappush set_heappush distinct_snd_heappush)
next
  case (next_pass s)
  then show ?case by simp
qed

lemma reach_heap_ok:
  assumes "reach clients arrival_rate service_rate counters rs p s"
  shows "heap_ok (busy_heap s)"
  using assms
proof (induction rule: reach.induct)
  case (start v k)
  then show ?case by (simp add: init_state_fields heap_ok_Nil)
next
  case (after_event s s')
  from after_event.hyps(3) show ?case
  proof (cases rule: event_cases)
    case arrival
    with after_event.IH show ?thesis by (simp add: arrival_event_fields)
  next
    case completion
    note f = completion_event_fields [OF completion(2)]
    from after_event.IH show ?thesis by (rule heappop_props(3) [OF f(1)])
  qed
next
  case (after_assign s s')
  note f = assign_one_fields [OF after_assign.hyps(3)]
  from after_assign.IH show ?case unfolding f(4) by (rule heap_ok_heappush)
next
  case (next_pass s)
  then show ?case by simp
qed

lemma reach_count:
  assumes "reach clients arrival_rate service_rate counters rs p s"
  shows "served s + int (length (busy_heap s)) + int (length (queue s)) = client_id s
       \<and> client_id s \<le> clients \<and> 0 \<le> served s
       \<and> (p = Head \<longrightarrow> free_servers s = [] \<or> queue s = [])"
  using assms
proof (induction rule: reach.induct)
  case (start v k)
  then show ?case by (simp add: init_state_fields)
next
  case (after_event s s')
  from after_event.hyps(3) show ?case
  proof (cases rule: event_cases)
    case arrival
    with after_event.IH show ?thesis by (simp add: arrival_event_fields)
  next
    case completion
    note f = completion_event_fields [OF completion(2)]
    from after_event.IH show ?thesis
      unfolding f(4) f(5) f(6) heappop_set(2) [OF f(1)] by simp
  qed
next
  case (after_assign s s')
  note f = assign_one_fields [OF after_assign.hyps(3)]
  from after_assign.hyps(2) obtain c cs where q: "queue s = c # cs"
    by (cases "queue s") auto
  from after_assign.IH show ?case
    unfolding f(3) f(4) f(6) f(7) q by (simp add: length_heappush)
next
  case (next_pass s)
  then show ?case by auto
qed

lemma event_ok:
  assumes r: "reach clients arrival_rate service_rate counters rs Head s"
    and v: "1 \<le> counters" "0 < arrival_rate"
    and more: "served s < clients"
  shows "\<exists>s'. event clients rs arrival_rate s = Inr s'"
proof (cases "le_xtime (next_arrival s) (next_completion (busy_heap s)) \<and> client_id s < clients")
  case True
  with arrival_event_ok [OF v(2)] show ?thesis by (simp add: event_def)
next
  case False
  have "busy_heap s \<noteq> []"
  proof
    assume e: "busy_heap s = []"
    with False have "clients \<le> client_id s" by (simp add: next_completion_def)
    with reach_count [OF r] e more have "queue s \<noteq> []" by auto
    with reach_count [OF r] have "free_servers s = []" by simp
    with reach_servers [OF r] e v(1) show False by simp
  qed
  from completion_event_ok [OF this] False show ?thesis by (auto simp: event_def)
qed

lemma assign_all_ok:
  assumes "0 < service_rate"
    and "reach clients arrival_rate service_rate counters rs Assign s"
  shows "\<exists>s'. assign_all rs service_rate s = Inr s' \<and>
              reach clients arrival_rate service_rate counters rs Head s'"
  using assms
proof (induction rs service_rate s rule: assign_all.induct)
  case (1 rs service_rate s)
  show ?case
  proof (cases "free_servers s \<noteq> [] \<and> queue s \<noteq> []")
    case True
    from assign_one_ok [OF "1.prems"(1) True] obtain s1 where
      one: "assign_one rs service_rate s = Inr s1" by blast
    from "1.prems"(2) True one
    have "reach clients arrival_rate service_rate counters rs Assign s1"
      by (rule reach.after_assign)
    from "1.IH" [OF True one "1.prems"(1) this] True one show ?thesis
      by (subst assign_all.simps) simp
  next
    case False
    with "1.prems"(2) have "reach clients arrival_rate service_rate counters rs Head s"
      by (rule reach.next_pass)
    with False show ?thesis by (subst assign_all.simps) auto
  qed
qed

lemma main_loop_ok:
  assumes "1 \<le> counters" "0 < arrival_rate" "0 < service_rate"
    and "reach clients arrival_rate service_rate counters rs Head s"
  shows "\<exists>s'. main_loop clients rs arrival_rate service_rate s = Inr s' \<and>
              reach clients arrival_rate service_rate counters rs Head s' \<and>
              served s' = clients"
  using assms
proof (induction clients rs arrival_rate service_rate s rule: main_loop.induct)
  case (1 clients rs arrival_rate service_rate s)
  note r = "1.prems"(4)
  show ?case
  proof (cases "served s < clients")
    case True
    from event_ok [OF r "1.prems"(1,2) True] obtain s1 where
      ev: "event clients rs arrival_rate s = Inr s1" by blast
    from r True ev have r1: "reach clients arrival_rate service_rate counters rs Assign s1"
      by (rule reach.after_event)
    from assign_all_ok [OF "1.prems"(3) r1] obtain s2 where
      as: "assign_all rs service_rate s1 = Inr s2" and
      r2: "reach clients arrival_rate service_rate counters rs Head s2" by blast
    from "1.IH" [OF True ev as "1.prems"(1,2,3) r2] True ev as show ?thesis
      by (subst main_loop.simps) simp
  next
    case False
    from reach_count [OF r] have "served s \<le> clients" by simp
    with False have "served s = clients" by simp
    with False r show ?thesis by (subst main_loop.simps) simp
  qed
qed

lemma run_ok:
  assumes "1 \<le> clients" "0 < arrival_rate" "0 < service_rate" "1 \<le> counters"
  shows "\<exists>s. run clients arrival_rate service_rate counters rs = Inr s \<and>
             reach clients arrival_rate service_rate counters rs Head s \<and>
             served s = clients"
proof -
  have e: "exp_time rs arrival_rate 0 = Inr (rs 0, Suc 0)"
    using assms(2) by (rule exp_time_pos)
  from assms(4,1,2,3) e
  have "reach clients arrival_rate service_rate counters rs Head
          (init_state counters (rs 0) (Suc 0))"
    by (rule reach.start)
  from main_loop_ok [OF assms(4,2,3) this] assms e show ?thesis
    by (simp add: run_def)
qed








lemma reach_tied_state: "reach 3 1 1 2 unit_stream Assign tied_state"
proof -
  have "exp_time unit_stream 1 0 = Inr (1, Suc 0)"
    by (simp add: exp_time_def unit_stream_def)
  then have r0: "reach 3 1 1 2 unit_stream Head (init_state 2 1 (Suc 0))"
    by (intro reach.start) simp_all
  have ev: "event 3 unit_stream 1 (init_state 2 1 (Suc 0)) = Inr first_arrival_state"
    unfolding first_arrival_state_def by code_simp
  have "served (init_state 2 1 (Suc 0)) < 3" by (simp add: init_state_def)
  with r0 have r1: "reach 3 1 1 2 unit_stream Assign first_arrival_state"
    using ev by (rule reach.after_event)
  have g: "free_servers first_arrival_state \<noteq> [] \<and> queue first_arrival_state \<noteq> []"
    by (simp add: first_arrival_state_def)
  have "assign_one unit_stream 1 first_arrival_state = Inr tied_state"
    unfolding first_arrival_state_def tied_state_def by code_simp
  with r1 g show ?thesis by (rule reach.after_assign)
qed

lemma reach_equal_finish_state:
  "reach 3 1 1 2 equal_finish_stream Assign equal_finish_state"
proof -
  let ?R = "reach 3 1 1 2 equal_finish_stream"
  define s1 where "s1 =
     \<lparr> t = 1, next_arrival = 2,
       queue = [\<lparr> id' = 1, arrival = 1, service_start = 0, service_end = 0 \<rparr>],
       busy_heap = [], free_servers = [0, 1],
       served = 0, client_id = 1, waits = [], max_queue = 1, queue_max_times = [(1, 1)],
       busy_time_sum = 0, drawn = 2, assigned = [] \<rparr>"
  define s2 where "s2 =
     \<lparr> t = 1, next_arrival = 2, queue = [], busy_heap = [(3, 1)], free_servers = [0],
       served = 0, client_id = 1, waits = [0], max_queue = 1, queue_max_times = [(1, 1)],
       busy_time_sum = 2, drawn = 3,
       assigned = [\<lparr> id' = 1, arrival = 1, service_start = 1, service_end = 3 \<rparr>] \<rparr>"
  define s3 where "s3 =
     \<lparr> t = 2, next_arrival = 7,
       queue = [\<lparr> id' = 2, arrival = 2, service_start = 0, service_end = 0 \<rparr>],
       busy_heap = [(3, 1)], free_servers = [0],
       served = 0, client_id = 2, waits = [0], max_queue = 1, queue_max_times = [(1, 1)],
       busy_time_sum = 2, drawn = 4,
       assigned = [\<lparr> id' = 1, arrival = 1, service_start = 1, service_end = 3 \<rparr>] \<rparr>"
  have "exp_time equal_finish_stream 1 0 = Inr (1, Suc 0)"
    by (simp add: exp_time_def equal_finish_stream_def)
  then have r0: "?R Head (init_state 2 1 (Suc 0))"
    by (intro reach.start) simp_all
  have e1: "event 3 equal_finish_stream 1 (init_state 2 1 (Suc 0)) = Inr s1"
    unfolding s1_def by code_simp
  have "served (init_state 2 1 (Suc 0)) < 3" by (simp add: init_state_def)
  with r0 have r1: "?R Assign s1" using e1 by (rule reach.after_event)
  have g1: "free_servers s1 \<noteq> [] \<and> queue s1 \<noteq> []" by (simp add: s1_def)
  have "assign_one equal_finish_stream 1 s1 = Inr s2"
    unfolding s1_def s2_def by code_simp
  with r1 g1 have r2: "?R Assign s2" by (rule reach.after_assign)
  have "\<not> (free_servers s2 \<noteq> [] \<and> queue s2 \<noteq> [])" by (simp add: s2_def)
  with r2 have r2': "?R Head s2" by (rule reach.next_pass)
  have e3: "event 3 equal_finish_stream 1 s2 = Inr s3"
    unfolding s2_def s3_def by code_simp
  have "served s2 < 3" by (simp add: s2_def)
  with r2' have r3: "?R Assign s3" using e3 by (rule reach.after_event)
  have g3: "free_servers s3 \<noteq> [] \<and> queue s3 \<noteq> []" by (simp add: s3_def)
  have "assign_one equal_finish_stream 1 s3 = Inr equal_finish_state"
    unfolding s3_def equal_finish_state_def by code_simp
  with r3 g3 show ?thesis by (rule reach.after_assign)
qed

section \<open>The claims\<close>

text \<open>
  C1: for every valid input (\<open>clients \<ge> 1\<close>, \<open>arrival_rate > 0\<close>, \<open>service_rate > 0\<close>,
  \<open>counters \<ge> 1\<close>) and every non-negative variate stream, \<open>simulate_queue\<close> terminates
  and returns a \<open>SimResult\<close> whose \<open>served\<close> equals \<open>clients\<close>.
\<close>

theorem simulate_queue_serves_all:
  assumes "1 \<le> clients" "0 < arrival_rate" "0 < service_rate" "1 \<le> counters"
    and "\<forall>k. 0 \<le> rs k"
  shows "\<exists>res. simulate_queue clients arrival_rate service_rate counters rs = Inr res
             \<and> res_served res = clients"
proof -
  from run_ok [OF assms(1-4)] obtain s where
    "run clients arrival_rate service_rate counters rs = Inr s" "served s = clients"
    by blast
  then show ?thesis by (simp add: simulate_queue_def result_def Let_def)
qed

theorem simulate_queue_serves_all_witness:
  "\<exists>res. simulate_queue 3 1 1 2 (\<lambda>k. 1) = Inr res \<and> res_served res = 3"
  using simulate_queue_serves_all [of 3 1 1 2 "\<lambda>k. 1"] by simp

text \<open>
  C2: when the next arrival is due exactly at the earliest pending completion time and
  fewer than \<open>clients\<close> arrivals have been generated, the event is the arrival: the customer
  joins the queue and the peak check runs, while the pending completions, the free servers
  and \<open>served\<close> are as before.
\<close>

theorem arrival_first_on_tie:
  assumes "next_completion (busy_heap s) = Fin (next_arrival s)"
    and "client_id s < clients" and "0 < arrival_rate"
  shows "\<exists>s'. event clients rs arrival_rate s = Inr s'
            \<and> t s' = next_arrival s
            \<and> client_id s' = client_id s + 1
            \<and> queue s' = queue s @ [\<lparr> id' = client_id s + 1, arrival = next_arrival s,
                                        service_start = 0, service_end = 0 \<rparr>]
            \<and> max_queue s' = max (max_queue s) (int (length (queue s)) + 1)
            \<and> queue_max_times s' =
                 (if max_queue s < int (length (queue s)) + 1
                  then queue_max_times s @ [(next_arrival s, int (length (queue s)) + 1)]
                  else queue_max_times s)
            \<and> busy_heap s' = busy_heap s
            \<and> free_servers s' = free_servers s
            \<and> served s' = served s"
proof -
  from arrival_event_ok [OF assms(3)] obtain s' where
    a: "arrival_event rs arrival_rate s = Inr s'" by blast
  from assms(1,2) a have "event clients rs arrival_rate s = Inr s'"
    by (simp add: event_def)
  with arrival_event_fields [OF a] show ?thesis by simp
qed

theorem arrival_first_on_tie_witness:
  "\<exists>s'. event 3 unit_stream 1 tied_state = Inr s'
        \<and> t s' = 2 \<and> client_id s' = 2 \<and> busy_heap s' = [(2, 1)]
        \<and> free_servers s' = [0] \<and> served s' = 0"
proof -
  have "next_completion (busy_heap tied_state) = Fin (next_arrival tied_state)"
    and "client_id tied_state < 3"
    by (simp_all add: tied_state_def next_completion_def)
  from arrival_first_on_tie [OF this, of 1 unit_stream] obtain s' where
    "event 3 unit_stream 1 tied_state = Inr s'"
    "t s' = next_arrival tied_state" "client_id s' = client_id tied_state + 1"
    "busy_heap s' = busy_heap tied_state" "free_servers s' = free_servers tied_state"
    "served s' = served tied_state"
    by auto
  then show ?thesis by (simp add: tied_state_def)
qed



text \<open>
  C4: for a non-empty sample list and \<open>p\<close> in [0, 100], \<open>pct\<close> returns
  \<open>S[floor k] + (S[ceil k] - S[floor k]) * (k - floor k)\<close> on the sorted samples \<open>S\<close>, with
  \<open>k = (p / 100) * (len S - 1)\<close>; \<open>pct [1, 2, 3, 4] 50\<close> is 2.5, \<open>pct [5] p\<close> is 5 for any
  \<open>p\<close>, and \<open>pct [] p\<close> is 0 for any \<open>p\<close>, without an error.
\<close>

theorem pct_interpolates:
  "(values \<noteq> [] \<and> 0 \<le> p \<and> p \<le> 100 \<longrightarrow>
      pct values p =
        Inr (let s = sort values;
                 k = (p / 100) * (real (length values) - 1)
             in s ! nat \<lfloor>k\<rfloor> + (s ! nat \<lceil>k\<rceil> - s ! nat \<lfloor>k\<rfloor>) * (k - real_of_int \<lfloor>k\<rfloor>)))
   \<and> pct [1, 2, 3, 4] 50 = Inr (5 / 2)
   \<and> pct [5] q = Inr 5
   \<and> pct [] q = Inr 0"
proof (intro conjI impI)
  assume a: "values \<noteq> [] \<and> 0 \<le> p \<and> p \<le> 100"
  define k where "k = (p / 100) * real_of_int (int (length values) - 1)"
  have k': "(p / 100) * (real (length values) - 1) = k" by (simp add: k_def)
  have k'': "(p / 100) * real_of_int (int (length (sort values)) - 1) = k" by (simp add: k_def)
  from a have v: "values \<noteq> []" and p0: "0 \<le> p" and p1: "p \<le> 100" by simp_all
  have b: "0 \<le> \<lfloor>k\<rfloor>" "\<lceil>k\<rceil> < int (length values)"
    unfolding k_def by (rule pct_rank_bounds [OF v p0 p1])+
  have fc: "\<lfloor>k\<rfloor> \<le> \<lceil>k\<rceil>" by (rule floor_le_ceiling)
  from b fc have "\<lfloor>k\<rfloor> < int (length values)" and "0 \<le> \<lceil>k\<rceil>"
    by linarith+
  with b have "\<lfloor>k\<rfloor> < int (length (sort values))" "0 \<le> \<lceil>k\<rceil>"
    "\<lceil>k\<rceil> < int (length (sort values))" by simp_all
  with b have lo: "getitem (sort values) \<lfloor>k\<rfloor> = Inr (sort values ! nat \<lfloor>k\<rfloor>)"
    and hi: "getitem (sort values) \<lceil>k\<rceil> = Inr (sort values ! nat \<lceil>k\<rceil>)"
    by (simp_all add: getitem_in_range)
  show "pct values p =
        Inr (let s = sort values;
                 k = (p / 100) * (real (length values) - 1)
             in s ! nat \<lfloor>k\<rfloor> + (s ! nat \<lceil>k\<rceil> - s ! nat \<lfloor>k\<rfloor>) * (k - real_of_int \<lfloor>k\<rfloor>))"
  proof (cases "\<lfloor>k\<rfloor> = \<lceil>k\<rceil>")
    case True
    from a have "pct values p = getitem (sort values) \<lfloor>k\<rfloor>"
      using True unfolding pct_def Let_def k'' by simp
    with lo True show ?thesis unfolding Let_def k' by simp
  next
    case False
    from a have "pct values p = Inr (sort values ! nat \<lfloor>k\<rfloor>
        + (sort values ! nat \<lceil>k\<rceil> - sort values ! nat \<lfloor>k\<rfloor>) * (k - real_of_int \<lfloor>k\<rfloor>))"
      using False lo hi unfolding pct_def Let_def k'' by simp
    then show ?thesis unfolding Let_def k' by simp
  qed
next
  have k: "(50 / 100) * real_of_int (int (length (sort [1, 2, 3, 4 :: real])) - 1) = 3 / 2"
    by simp
  have f: "\<lfloor>3 / 2 :: real\<rfloor> = 1" and c: "\<lceil>3 / 2 :: real\<rceil> = 2" by simp_all
  show "pct [1, 2, 3, 4] 50 = Inr (5 / 2)"
    unfolding pct_def Let_def k f c by (simp add: getitem_def)
next
  show "pct [5] q = Inr 5" by (simp add: pct_def getitem_def)
next
  show "pct [] q = Inr 0" by (simp add: pct_def)
qed

theorem pct_interpolates_witness:
  "pct [1, 3, 5, 7] 50 = Inr 4"
proof -
  have f: "\<lfloor>3 / 2 :: real\<rfloor> = 1" and c: "\<lceil>3 / 2 :: real\<rceil> = 2" by simp_all
  from pct_interpolates [of "[1, 3, 5, 7]" 50 0] show ?thesis
    by (simp add: Let_def f c)
qed



text \<open>
  C6: at every point of the event loop (at the test of the outer loop, after each event and
  after each assignment) the pending completions and the free servers together number
  \<open>counters\<close>, no server has two pending completions, no server is both pending and free,
  and between them they are the servers \<open>0 .. counters - 1\<close>.
\<close>

theorem servers_partition:
  assumes "reach clients arrival_rate service_rate counters rs p s"
  shows "int (length (busy_heap s)) + int (length (free_servers s)) = counters
       \<and> distinct (map snd (busy_heap s))
       \<and> distinct (free_servers s)
       \<and> set (map snd (busy_heap s)) \<inter> set (free_servers s) = {}
       \<and> set (map snd (busy_heap s)) \<union> set (free_servers s) = {0 .. counters - 1}"
  using reach_servers [OF assms] by simp

theorem servers_partition_witness:
  "int (length (busy_heap equal_finish_state))
     + int (length (free_servers equal_finish_state)) = 2
   \<and> distinct (map snd (busy_heap equal_finish_state))
   \<and> set (map snd (busy_heap equal_finish_state))
       \<union> set (free_servers equal_finish_state) = {0 .. 1}"
  using servers_partition [OF reach_equal_finish_state] by simp




text \<open>
  C8: at every point of the event loop, \<open>heappop\<close> on a non-empty \<open>busy_heap\<close> removes
  and returns the pending completion with the smallest completion time, the lower server
  index first among equal times; the peeked time \<open>busy_heap[0][0]\<close> is the time of that
  pair, and the pair is strictly before every other pending pair. When \<open>busy_heap\<close> is
  empty the peeked time is the sentinel, which no arrival time exceeds.
\<close>

theorem event_horizon_minimum:
  assumes "reach clients arrival_rate service_rate counters rs p s"
  shows "(busy_heap s = [] \<longrightarrow>
            next_completion (busy_heap s) = PosInf
            \<and> (\<forall>a. le_xtime a (next_completion (busy_heap s))))
       \<and> (busy_heap s \<noteq> [] \<longrightarrow>
            (\<exists>x h. heappop (busy_heap s) = Inr (x, h)
               \<and> next_completion (busy_heap s) = Fin (fst x)
               \<and> mset (busy_heap s) = add_mset x (mset h)
               \<and> (\<forall>e\<in>set (busy_heap s).
                     fst x < fst e \<or> (fst x = fst e \<and> snd x \<le> snd e))
               \<and> (\<forall>e\<in>set h. tuple_lt x e)))"
proof (intro conjI impI)
  assume "busy_heap s = []"
  then show "next_completion (busy_heap s) = PosInf"
    and "\<forall>a. le_xtime a (next_completion (busy_heap s))"
    by (simp_all add: next_completion_def)
next
  assume ne: "busy_heap s \<noteq> []"
  from heappop_ok [OF this] obtain x h where
    pop: "heappop (busy_heap s) = Inr (x, h)" by blast
  note x = heappop_props(2) [OF pop] and m = heappop_mset [OF pop]
  note ok = reach_heap_ok [OF assms]
  have le: "\<forall>e\<in>set (busy_heap s). tuple_le x e"
    unfolding x using ok by (auto intro: heap_ok_least)
  from reach_servers [OF assms] have "distinct (map snd (busy_heap s))" by simp
  from distinct_snd_heappop(2) [OF pop this] have "snd x \<notin> snd ` set h" by simp
  then have d: "\<forall>e\<in>set h. snd e \<noteq> snd x" by (metis imageI)
  have "\<forall>e\<in>set h. tuple_lt x e"
  proof
    fix e assume e: "e \<in> set h"
    with heappop_set(1) [OF pop] have "e \<in> set (busy_heap s)" by simp
    with le d e have "tuple_le x e" "snd e \<noteq> snd x" by blast+
    then show "tuple_lt x e" by (auto simp: tuple_le_def tuple_lt_def)
  qed
  moreover from le have "\<forall>e\<in>set (busy_heap s).
                     fst x < fst e \<or> (fst x = fst e \<and> snd x \<le> snd e)"
    by (auto simp: tuple_le_def)
  moreover from ne have "next_completion (busy_heap s) = Fin (fst x)"
    by (simp add: next_completion_def x)
  ultimately show "\<exists>x h. heappop (busy_heap s) = Inr (x, h)
               \<and> next_completion (busy_heap s) = Fin (fst x)
               \<and> mset (busy_heap s) = add_mset x (mset h)
               \<and> (\<forall>e\<in>set (busy_heap s).
                     fst x < fst e \<or> (fst x = fst e \<and> snd x \<le> snd e))
               \<and> (\<forall>e\<in>set h. tuple_lt x e)"
    using pop m by blast
qed

theorem event_horizon_minimum_witness:
  "heappop (busy_heap equal_finish_state) = Inr ((3, 0), [(3, 1)])
   \<and> next_completion (busy_heap equal_finish_state) = Fin 3
   \<and> tuple_lt (3, 0) (3, 1)"
proof -
  have b: "busy_heap equal_finish_state = [(3, 0), (3, 1)]"
    by (simp add: equal_finish_state_def)
  have p: "heappop [(3, 0), (3, 1)] = Inr ((3, 0), [(3, 1)])" by code_simp
  from event_horizon_minimum [OF reach_equal_finish_state] show ?thesis
    unfolding b p by (simp add: next_completion_def tuple_lt_def)
qed



text \<open>
  C10: an assignment takes the last element of \<open>free_servers\<close> and a completion appends
  the freed server at the end, so the most recently freed server is used first; from the
  initial state the first customer is served by server \<open>counters - 1\<close>.
\<close>

theorem free_servers_lifo:
  "(0 < service_rate \<and> free_servers s \<noteq> [] \<and> queue s \<noteq> [] \<longrightarrow>
      (\<exists>s'. assign_one rs service_rate s = Inr s'
         \<and> busy_heap s' =
             heappush (busy_heap s) (t s + rs (drawn s), last (free_servers s))
         \<and> free_servers s' = butlast (free_servers s)))
   \<and> (completion_event s = Inr s'' \<longrightarrow>
        free_servers s'' = free_servers s @ [snd (busy_heap s ! 0)])
   \<and> (1 \<le> clients \<and> 0 < arrival_rate \<and> 0 < service_rate \<and> 1 \<le> counters \<longrightarrow>
        (\<exists>s1 s2. event clients rs arrival_rate (init_state counters (rs 0) (Suc 0)) = Inr s1
           \<and> assign_all rs service_rate s1 = Inr s2
           \<and> busy_heap s2 = [(rs 0 + rs 2, counters - 1)]
           \<and> free_servers s2 = [0 .. counters - 2]))"
proof (intro conjI impI)
  assume "0 < service_rate \<and> free_servers s \<noteq> [] \<and> queue s \<noteq> []"
  then have "0 < service_rate" and "free_servers s \<noteq> [] \<and> queue s \<noteq> []" by simp_all
  from assign_one_ok [OF this] obtain s' where
    a: "assign_one rs service_rate s = Inr s'" by blast
  with assign_one_fields(4,5) [OF a]
  show "\<exists>s'. assign_one rs service_rate s = Inr s'
         \<and> busy_heap s' =
             heappush (busy_heap s) (t s + rs (drawn s), last (free_servers s))
         \<and> free_servers s' = butlast (free_servers s)"
    by blast
next
  assume "completion_event s = Inr s''"
  then show "free_servers s'' = free_servers s @ [snd (busy_heap s ! 0)]"
    by (rule completion_event_fields(2))
next
  assume v: "1 \<le> clients \<and> 0 < arrival_rate \<and> 0 < service_rate \<and> 1 \<le> counters"
  let ?s0 = "init_state counters (rs 0) (Suc 0)"
  from v have ar: "0 < arrival_rate" and mu: "0 < service_rate" by simp_all
  from arrival_event_ok [OF ar] obtain s1 where
    a: "arrival_event rs arrival_rate ?s0 = Inr s1" by blast
  note f = arrival_event_fields [OF a]
  from v a have ev: "event clients rs arrival_rate ?s0 = Inr s1"
    by (simp add: event_def init_state_fields next_completion_def)
  from v have up: "[0 .. counters - 1] = [0 .. counters - 2] @ [counters - 1]"
    using upto_rec2 [of 0 "counters - 1"] by simp
  have fs1: "free_servers s1 = [0 .. counters - 2] @ [counters - 1]"
    unfolding f(5) by (simp add: init_state_fields up)
  have q1: "queue s1 = [\<lparr> id' = 1, arrival = rs 0, service_start = 0, service_end = 0 \<rparr>]"
    unfolding f(3) by (simp add: init_state_fields)
  from fs1 q1 have "free_servers s1 \<noteq> [] \<and> queue s1 \<noteq> []" by simp
  from assign_one_ok [OF mu this] obtain s2 where
    b: "assign_one rs service_rate s1 = Inr s2" by blast
  note g = assign_one_fields [OF b]
  have q2: "queue s2 = []" unfolding g(3) q1 by simp
  have h2: "busy_heap s2 = [(rs 0 + rs 2, counters - 1)]"
    unfolding g(4) f(1) f(4) f(12) fs1
    by (simp add: init_state_fields numeral_2_eq_2 heappush_Nil)
  have fs2: "free_servers s2 = [0 .. counters - 2]" unfolding g(5) fs1 by simp
  from q2 have stop: "assign_all rs service_rate s2 = Inr s2"
    by (subst assign_all.simps) simp
  from fs1 q1 b stop have "assign_all rs service_rate s1 = Inr s2"
    by (subst assign_all.simps) simp
  with ev h2 fs2
  show "\<exists>s1 s2. event clients rs arrival_rate (init_state counters (rs 0) (Suc 0)) = Inr s1
           \<and> assign_all rs service_rate s1 = Inr s2
           \<and> busy_heap s2 = [(rs 0 + rs 2, counters - 1)]
           \<and> free_servers s2 = [0 .. counters - 2]"
    by blast
qed

theorem free_servers_lifo_witness:
  "(\<exists>s'. assign_one unit_stream 1 first_arrival_state = Inr s'
        \<and> busy_heap s' = [(2, 1)] \<and> free_servers s' = [0])
   \<and> (\<exists>s''. completion_event tied_state = Inr s'' \<and> free_servers s'' = [0, 1])
   \<and> (\<exists>s1 s2. event 3 unit_stream 1 (init_state 2 1 (Suc 0)) = Inr s1
        \<and> assign_all unit_stream 1 s1 = Inr s2
        \<and> busy_heap s2 = [(2, 1)] \<and> free_servers s2 = [0])"
proof -
  let ?s'' = "tied_state\<lparr> t := 2, busy_heap := [], served := 1, free_servers := [0, 1] \<rparr>"
  have c: "completion_event tied_state = Inr ?s''"
    by (simp add: completion_event_def tied_state_def heappop_single)
  have g: "free_servers first_arrival_state \<noteq> [] \<and> queue first_arrival_state \<noteq> []"
    by (simp add: first_arrival_state_def)
  have u: "[0 .. 0 :: int] = [0]" by (simp add: upto.simps)
  note l = free_servers_lifo [where service_rate = 1 and rs = unit_stream
      and clients = 3 and arrival_rate = 1 and counters = 2]
  from l [where s = first_arrival_state and s'' = ?s'']
  have 1: "\<exists>s'. assign_one unit_stream 1 first_arrival_state = Inr s'
        \<and> busy_heap s' = [(2, 1)] \<and> free_servers s' = [0]"
    using g by (simp add: first_arrival_state_def unit_stream_def heappush_Nil)
  from l [where s = tied_state and s'' = ?s''] c
  have "free_servers ?s'' = [0, 1]"
    by (simp add: tied_state_def)
  with c have 2: "\<exists>s''. completion_event tied_state = Inr s'' \<and> free_servers s'' = [0, 1]"
    by blast
  from l [where s = tied_state and s'' = ?s'']
  have 3: "\<exists>s1 s2. event 3 unit_stream 1 (init_state 2 1 (Suc 0)) = Inr s1
        \<and> assign_all unit_stream 1 s1 = Inr s2
        \<and> busy_heap s2 = [(2, 1)] \<and> free_servers s2 = [0]"
    by (simp add: unit_stream_def u)
  from 1 2 3 show ?thesis by blast
qed

end
